theory Spec2Isabelle
  imports Main
begin

section \<open>The interview screen: data model\<close>

text \<open>
  The component \<^verbatim>\<open>InterviewScreen\<close> of
  \<^verbatim>\<open>src/project/src/components/InterviewScreen.jsx\<close> is a React function component.
  Its handlers are closures created anew at every render; each closure reads the React
  state variables of the render that created it (constants of that render) and the refs
  (shared mutable cells) as they are when it runs. The model keeps the two apart: a handler
  takes the captured render as an explicit \<open>env\<close> and the live cells in the \<open>state\<close>.
  Asynchronous functions are split at every \<^verbatim>\<open>await\<close> that waits for the outside
  world; the second half runs when the corresponding event is delivered.
\<close>

record question =
  q_id :: string
  q_text :: string
  estimated_seconds :: "int option"   \<comment> \<open>\<open>None\<close>: the field is absent (or null)\<close>

record sessionData =
  session_id :: string
  questions_field :: "question list option"

text \<open>Line 19: \<^verbatim>\<open>const questions = sessionData.questions || []\<close>.\<close>

definition questions :: "sessionData \<Rightarrow> question list" where
  "questions sd = (case questions_field sd of None \<Rightarrow> [] | Some qs \<Rightarrow> qs)"

text \<open>
  What a handler captures from its render: the two state variables that the handlers read
  (\<^verbatim>\<open>currentQuestionIndex\<close>, and through it \<^verbatim>\<open>currentQuestion\<close>; and
  \<^verbatim>\<open>recording\<close>).
\<close>

record env =
  e_index :: nat
  e_recording :: bool

text \<open>Line 20: \<^verbatim>\<open>questions[currentQuestionIndex]\<close>, \<^verbatim>\<open>undefined\<close> out of range.\<close>

definition currentQuestion :: "sessionData \<Rightarrow> env \<Rightarrow> question option" where
  "currentQuestion sd e =
     (if e_index e < length (questions sd) then Some (questions sd ! e_index e) else None)"

text \<open>
  The browser's media recorder, an external collaborator. A recorder is \<open>RRecording\<close>
  after \<^verbatim>\<open>start()\<close>; \<^verbatim>\<open>stop()\<close> on a recording recorder makes it \<open>RStopping\<close>:
  its \<^verbatim>\<open>state\<close> attribute is already inactive and the task that fires
  \<^verbatim>\<open>dataavailable\<close> and then \<^verbatim>\<open>stop\<close> is queued; the task makes it \<open>RInactive\<close>.
  \<^verbatim>\<open>stop()\<close> on a recorder that is not recording does nothing.
\<close>

datatype rstate = RRecording | RStopping | RInactive

text \<open>
  The value of a recorder's \<^verbatim>\<open>onstop\<close>: \<^verbatim>\<open>handleRecordingStop\<close> of some render
  (line 98), or the \<^verbatim>\<open>resolve\<close> of the promise \<^verbatim>\<open>waitForStop\<close> made by an
  invocation of \<^verbatim>\<open>handleNextQuestion\<close> of some render (lines 144-148), which resumes
  that invocation after its \<^verbatim>\<open>await\<close>.
\<close>

datatype onstop = HandleRecordingStop env | ResolveWaitForStop env

record recorder =
  r_state :: rstate
  r_onstop :: onstop
  r_mimeType :: string

text \<open>An interval timer made by \<^verbatim>\<open>setInterval\<close> at line 107, with the render its callback captured.\<close>

record timer =
  t_env :: env
  t_cleared :: bool

text \<open>A blob: its parts (each chunk stands for its size in bytes) and its type.\<close>

record blob =
  b_parts :: "nat list"
  b_type :: string

text \<open>A request sent to \<^verbatim>\<open>/api/upload-answer/{session_id}/{question_id}\<close>, and the render of the \<^verbatim>\<open>uploadAnswer\<close> that awaits its response.\<close>

record upload_call =
  u_env :: env
  u_session :: string
  u_question :: string
  u_blob :: blob
  u_resolved :: bool

datatype response = Ok | NotOk | NetworkError

text \<open>How a call of the prop \<^verbatim>\<open>onComplete\<close>, a function of the hosting application, ends.\<close>

datatype outcome = Returns | Throws

text \<open>
  What the browser offers: the audio tracks of the acquired stream, the types
  \<^verbatim>\<open>MediaRecorder.isTypeSupported\<close> accepts, whether the two constructor calls of
  lines 89 and 91 succeed, and the type a recorder built without a hint reports.
\<close>

record user_agent =
  audio_tracks :: nat
  supported_types :: "string list"
  ctor_with_options_ok :: bool
  ctor_plain_ok :: bool
  default_mimeType :: string

text \<open>
  The state: the React state variables (lines 5-10), the refs (lines 12-17), the recorders
  and timers that exist, the requests sent, the calls of \<^verbatim>\<open>onComplete\<close>, the alerts
  shown, whether \<^verbatim>\<open>getUserMedia\<close> is still pending, and the dependencies
  \<^verbatim>\<open>[currentQuestionIndex, cameraReady]\<close> of the last run of the effect of lines 30-34.
  \<open>timerRef = Some t\<close> holds the handle of timer \<open>t\<close>; handles of \<^verbatim>\<open>setInterval\<close>
  are positive, so the truth test of lines 26 and 129 is \<open>timerRef \<noteq> None\<close>.
\<close>

record state =
  currentQuestionIndex :: nat
  recording :: bool
  timeLeft :: int
  uploading :: bool
  analyzing :: bool
  cameraReady :: bool
  mediaRecorderRef :: "nat option"
  audioChunksRef :: "nat list"
  streamRef :: bool
  tracks_stopped :: bool
  timerRef :: "nat option"
  uploadLockedRef :: bool
  recorders :: "recorder list"
  timers :: "timer list"
  uploads :: "upload_call list"
  analyses :: "bool list"
  completions :: nat
  alerts :: "string list"
  camera_pending :: bool
  effect_deps :: "nat \<times> bool"

definition init :: state where
  "init = \<lparr> currentQuestionIndex = 0, recording = False, timeLeft = 0, uploading = False,
            analyzing = False, cameraReady = False, mediaRecorderRef = None,
            audioChunksRef = [], streamRef = False, tracks_stopped = False, timerRef = None,
            uploadLockedRef = False, recorders = [], timers = [], uploads = [],
            analyses = [], completions = 0, alerts = [], camera_pending = True,
            effect_deps = (0, False) \<rparr>"

definition render_env :: "state \<Rightarrow> env" where
  "render_env st = \<lparr> e_index = currentQuestionIndex st, e_recording = recording st \<rparr>"

section \<open>The handlers\<close>

text \<open>\<^verbatim>\<open>recorder.stop()\<close> on recorder \<open>r\<close>.\<close>

definition recorder_stop :: "nat \<Rightarrow> state \<Rightarrow> state" where
  "recorder_stop r st =
     (if r < length (recorders st) \<and> r_state (recorders st ! r) = RRecording
      then st\<lparr>recorders := (recorders st)[r := (recorders st ! r)\<lparr>r_state := RStopping\<rparr>]\<rparr>
      else st)"

text \<open>Lines 53-57.\<close>

definition stopCamera :: "state \<Rightarrow> state" where
  "stopCamera st = (if streamRef st then st\<lparr>tracks_stopped := True\<rparr> else st)"

text \<open>Lines 71-85: the first supported type of the list, if any.\<close>

definition types :: "string list" where
  "types = [''video/webm;codecs=vp9,opus'', ''video/webm;codecs=vp8,opus'',
            ''audio/webm;codecs=opus'', ''audio/webm'', ''audio/ogg;codecs=opus'']"

definition pick_mimeType :: "user_agent \<Rightarrow> string option" where
  "pick_mimeType ua = find (\<lambda>t. t \<in> set (supported_types ua)) types"

text \<open>
  Lines 87-92: the recorder's type, or \<open>None\<close> when both constructor calls throw.
  A recorder that was built is taken to start (line 100).
\<close>

definition new_MediaRecorder :: "user_agent \<Rightarrow> string option" where
  "new_MediaRecorder ua =
     (if ctor_with_options_ok ua
      then Some (case pick_mimeType ua of None \<Rightarrow> default_mimeType ua | Some t \<Rightarrow> t)
      else if ctor_plain_ok ua then Some (default_mimeType ua) else None)"

text \<open>Line 104: \<^verbatim>\<open>currentQuestion?.estimated_seconds || 90\<close>.\<close>

definition questionTime :: "sessionData \<Rightarrow> env \<Rightarrow> int" where
  "questionTime sd e =
     (case currentQuestion sd e of
        None \<Rightarrow> 90
      | Some q \<Rightarrow> (case estimated_seconds q of
                     None \<Rightarrow> 90
                   | Some n \<Rightarrow> if n = 0 then 90 else n))"

definition recorder_error_alert :: string where
  "recorder_error_alert = ''Recording could not start. Check microphone permissions.''"

text \<open>Lines 59-121.\<close>

definition startRecording :: "sessionData \<Rightarrow> user_agent \<Rightarrow> env \<Rightarrow> state \<Rightarrow> state" where
  "startRecording sd ua e st =
     (if \<not> streamRef st \<or> e_recording e then st
      else
        let st1 = st\<lparr>audioChunksRef := [], uploadLockedRef := False\<rparr> in
        if audio_tracks ua = 0
        then st1\<lparr>alerts := alerts st1 @ [recorder_error_alert]\<rparr>
        else
          case new_MediaRecorder ua of
            None \<Rightarrow> st1\<lparr>alerts := alerts st1 @ [recorder_error_alert]\<rparr>
          | Some m \<Rightarrow>
              st1\<lparr>recorders := recorders st1 @
                      [\<lparr>r_state = RRecording, r_onstop = HandleRecordingStop e, r_mimeType = m\<rparr>],
                  mediaRecorderRef := Some (length (recorders st1)),
                  recording := True,
                  timeLeft := questionTime sd e,
                  timers := timers st1 @ [\<lparr>t_env = e, t_cleared = False\<rparr>],
                  timerRef := Some (length (timers st1))\<rparr>)"

text \<open>\<^verbatim>\<open>clearInterval(timerRef.current)\<close>.\<close>

definition clearInterval :: "nat \<Rightarrow> state \<Rightarrow> state" where
  "clearInterval t st =
     (if t < length (timers st)
      then st\<lparr>timers := (timers st)[t := (timers st ! t)\<lparr>t_cleared := True\<rparr>]\<rparr>
      else st)"

text \<open>Lines 123-134.\<close>

definition stopRecording :: "env \<Rightarrow> state \<Rightarrow> state" where
  "stopRecording e st =
     (case mediaRecorderRef st of
        None \<Rightarrow> st
      | Some r \<Rightarrow>
          if e_recording e then
            let st1 = recorder_stop r (st\<lparr>uploadLockedRef := True\<rparr>);
                st2 = st1\<lparr>recording := False\<rparr>
            in (case timerRef st2 of
                  None \<Rightarrow> st2
                | Some t \<Rightarrow> (clearInterval t st2)\<lparr>timerRef := None\<rparr>)
          else st)"

definition upload_error_alert :: string where
  "upload_error_alert = ''Failed to upload answer.''"

definition analysis_error_alert :: string where
  "analysis_error_alert = ''Failed to analyze. Check backend.''"

text \<open>
  Lines 186-196: \<^verbatim>\<open>uploadAnswer\<close> up to the \<^verbatim>\<open>await fetch\<close>. Reading
  \<^verbatim>\<open>currentQuestion.id\<close> of an undefined question throws inside the \<^verbatim>\<open>try\<close>, so
  the \<^verbatim>\<open>catch\<close> and the \<^verbatim>\<open>finally\<close> run at once and nothing is sent.
\<close>

definition uploadAnswer :: "sessionData \<Rightarrow> env \<Rightarrow> blob \<Rightarrow> state \<Rightarrow> state" where
  "uploadAnswer sd e b st =
     (let st1 = st\<lparr>uploading := True\<rparr> in
      case currentQuestion sd e of
        None \<Rightarrow> st1\<lparr>alerts := alerts st1 @ [upload_error_alert], uploading := False\<rparr>
      | Some q \<Rightarrow>
          st1\<lparr>uploads := uploads st1 @
                  [\<lparr>u_env = e, u_session = session_id sd, u_question = q_id q,
                    u_blob = b, u_resolved = False\<rparr>]\<rparr>)"

text \<open>Lines 214-222: \<^verbatim>\<open>analyzeInterview\<close> up to the \<^verbatim>\<open>await fetch\<close>.\<close>

definition analyzeInterview :: "state \<Rightarrow> state" where
  "analyzeInterview st =
     (let st1 = stopCamera (st\<lparr>analyzing := True\<rparr>)
      in st1\<lparr>analyses := analyses st1 @ [False]\<rparr>)"

text \<open>
  Lines 229-230, the \<^verbatim>\<open>catch\<close> of \<^verbatim>\<open>analyzeInterview\<close>: the alert and a call of
  \<^verbatim>\<open>onComplete\<close> that ends as \<open>c2\<close>. When that call throws, \<^verbatim>\<open>analyzeInterview\<close>
  rejects, and the \<^verbatim>\<open>catch\<close> of the \<^verbatim>\<open>uploadAnswer\<close> that awaited it (lines
  206-208) shows its own alert. Either way the \<^verbatim>\<open>finally\<close> of line 210 runs.
  \<open>completions\<close> counts the calls of \<^verbatim>\<open>onComplete\<close>, however they end.
\<close>

definition analyzeInterview_catch :: "outcome \<Rightarrow> state \<Rightarrow> state" where
  "analyzeInterview_catch c2 st =
     (let st1 = st\<lparr>alerts := alerts st @ [analysis_error_alert],
                    completions := completions st + 1\<rparr>
      in if c2 = Returns then st1\<lparr>uploading := False\<rparr>
         else st1\<lparr>alerts := alerts st1 @ [upload_error_alert], uploading := False\<rparr>)"

text \<open>
  Lines 224-231, then the rest of the \<^verbatim>\<open>uploadAnswer\<close> that awaited the analysis.
  A response that is not ok, or a rejected \<^verbatim>\<open>fetch\<close>, goes to the \<^verbatim>\<open>catch\<close>. After
  an ok response line 226 calls \<^verbatim>\<open>onComplete\<close> inside the \<^verbatim>\<open>try\<close>; the call ends as
  \<open>c1\<close>, and when it throws the \<^verbatim>\<open>catch\<close> runs as well and calls \<^verbatim>\<open>onComplete\<close> again.
\<close>

definition analyzeInterview_resume :: "response \<Rightarrow> outcome \<Rightarrow> outcome \<Rightarrow> state \<Rightarrow> state" where
  "analyzeInterview_resume r c1 c2 st =
     (if r = Ok then
        let st1 = st\<lparr>completions := completions st + 1\<rparr>
        in if c1 = Returns then st1\<lparr>uploading := False\<rparr>
           else analyzeInterview_catch c2 st1
      else analyzeInterview_catch c2 st)"

text \<open>
  Lines 198-211: \<^verbatim>\<open>uploadAnswer\<close> after the response. The comparison of line 200 is
  between JavaScript numbers, so \<^verbatim>\<open>questions.length - 1\<close> is \<open>-1\<close> for no questions.
\<close>

definition uploadAnswer_resume :: "sessionData \<Rightarrow> env \<Rightarrow> response \<Rightarrow> state \<Rightarrow> state" where
  "uploadAnswer_resume sd e r st =
     (if r = Ok then
        if int (e_index e) < int (length (questions sd)) - 1
        then st\<lparr>currentQuestionIndex := currentQuestionIndex st + 1, uploading := False\<rparr>
        else analyzeInterview st
      else st\<lparr>alerts := alerts st @ [upload_error_alert], uploading := False\<rparr>)"

text \<open>\<^verbatim>\<open>x || "audio/webm"\<close> for a string \<open>x\<close>: the empty string is falsy.\<close>

definition or_webm :: "string \<Rightarrow> string" where
  "or_webm m = (if m = [] then ''audio/webm'' else m)"

text \<open>Lines 136-155: \<^verbatim>\<open>handleNextQuestion\<close> up to \<^verbatim>\<open>await waitForStop\<close>.\<close>

definition handleNextQuestion :: "env \<Rightarrow> state \<Rightarrow> state" where
  "handleNextQuestion e st =
     (let st1 = st\<lparr>uploadLockedRef := True\<rparr> in
      case mediaRecorderRef st1 of
        None \<Rightarrow> st1
      | Some r \<Rightarrow>
          if r < length (recorders st1) then
            let st2 = st1\<lparr>recorders :=
                        (recorders st1)[r := (recorders st1 ! r)\<lparr>r_onstop := ResolveWaitForStop e\<rparr>]\<rparr>
            in if e_recording e then recorder_stop r (st2\<lparr>recording := False\<rparr>) else st2
          else st1)"

text \<open>Lines 157-167: \<^verbatim>\<open>handleNextQuestion\<close> after the \<^verbatim>\<open>await\<close>, for the recorder \<open>r\<close> it holds.\<close>

definition handleNextQuestion_resume :: "sessionData \<Rightarrow> env \<Rightarrow> nat \<Rightarrow> state \<Rightarrow> state" where
  "handleNextQuestion_resume sd e r st =
     (if audioChunksRef st = []
      then uploadAnswer sd e \<lparr>b_parts = [], b_type = ''audio/webm''\<rparr> st
      else uploadAnswer sd e
             \<lparr>b_parts = audioChunksRef st, b_type = or_webm (r_mimeType (recorders st ! r))\<rparr> st)"

text \<open>Lines 171-183. Line 179 reads the type of the recorder in \<^verbatim>\<open>mediaRecorderRef\<close>.\<close>

definition handleRecordingStop :: "sessionData \<Rightarrow> env \<Rightarrow> state \<Rightarrow> state" where
  "handleRecordingStop sd e st =
     (if uploadLockedRef st then st\<lparr>uploadLockedRef := False\<rparr>
      else if audioChunksRef st = [] then st
      else uploadAnswer sd e
             \<lparr>b_parts = audioChunksRef st,
              b_type = (case mediaRecorderRef st of
                          None \<Rightarrow> ''audio/webm''
                        | Some r \<Rightarrow> or_webm (r_mimeType (recorders st ! r)))\<rparr> st)"

section \<open>Events and runs\<close>

text \<open>
  What the outside world does to the mounted component: \<^verbatim>\<open>getUserMedia\<close> resolves or
  rejects; interval \<open>t\<close> fires; the user clicks the button of lines 270-276; recorder \<open>r\<close>
  delivers its data (a blob of the given size) and then its \<^verbatim>\<open>stop\<close> event, either
  the task queued by \<^verbatim>\<open>stop()\<close> or, for a recorder still recording, because the
  recording ended by itself; the response to upload \<open>n\<close> or to analysis call \<open>n\<close> arrives.
  The event of an analysis response also says how the hosting application's
  \<^verbatim>\<open>onComplete\<close> ends when called at line 226 and when called at line 230, for the calls
  that are made.
  The component stays mounted: the cleanup of lines 24-27 is not among the events.
\<close>

datatype event =
    CameraGranted
  | CameraDenied
  | Tick nat
  | ClickNext
  | RecorderStop nat nat
  | UploadResponse nat response
  | AnalyzeResponse nat response outcome outcome

text \<open>
  Lines 107-115: one tick of the interval whose callback captured \<open>e\<close>. The
  \<^verbatim>\<open>stopRecording\<close> it calls is the one of the render that called
  \<^verbatim>\<open>startRecording\<close>, and reads that render's \<^verbatim>\<open>recording\<close>.
\<close>

definition tick :: "env \<Rightarrow> state \<Rightarrow> state" where
  "tick e st =
     (if timeLeft st \<le> 1 then (stopRecording e st)\<lparr>timeLeft := 0\<rparr>
      else st\<lparr>timeLeft := timeLeft st - 1\<rparr>)"

text \<open>Line 95 and the \<^verbatim>\<open>stop\<close> event of recorder \<open>r\<close>.\<close>

definition recorder_events :: "sessionData \<Rightarrow> nat \<Rightarrow> nat \<Rightarrow> state \<Rightarrow> state" where
  "recorder_events sd r sz st =
     (let st1 = (if sz > 0 then st\<lparr>audioChunksRef := audioChunksRef st @ [sz]\<rparr> else st);
          st2 = st1\<lparr>recorders := (recorders st1)[r := (recorders st1 ! r)\<lparr>r_state := RInactive\<rparr>]\<rparr>
      in case r_onstop (recorders st2 ! r) of
           HandleRecordingStop e \<Rightarrow> handleRecordingStop sd e st2
         | ResolveWaitForStop e \<Rightarrow> handleNextQuestion_resume sd e r st2)"

text \<open>An event that cannot happen in the state (a cleared timer, a disabled button, a recorder that has fired its stop, a response already received) leaves it unchanged.\<close>

definition handle :: "sessionData \<Rightarrow> event \<Rightarrow> state \<Rightarrow> state" where
  "handle sd ev st =
     (case ev of
        CameraGranted \<Rightarrow>
          if camera_pending st
          then st\<lparr>camera_pending := False, streamRef := True, cameraReady := True\<rparr>
          else st
      | CameraDenied \<Rightarrow>
          if camera_pending st
          then st\<lparr>camera_pending := False,
                  alerts := alerts st @ [''Please allow camera and microphone access to continue'']\<rparr>
          else st
      | Tick t \<Rightarrow>
          if t < length (timers st) \<and> \<not> t_cleared (timers st ! t)
          then tick (t_env (timers st ! t)) st else st
      | ClickNext \<Rightarrow>
          if uploading st \<or> analyzing st then st else handleNextQuestion (render_env st) st
      | RecorderStop r sz \<Rightarrow>
          if r < length (recorders st) \<and> r_state (recorders st ! r) \<noteq> RInactive
          then recorder_events sd r sz st else st
      | UploadResponse n r \<Rightarrow>
          if n < length (uploads st) \<and> \<not> u_resolved (uploads st ! n)
          then uploadAnswer_resume sd (u_env (uploads st ! n)) r
                 (st\<lparr>uploads := (uploads st)[n := (uploads st ! n)\<lparr>u_resolved := True\<rparr>]\<rparr>)
          else st
      | AnalyzeResponse n r c1 c2 \<Rightarrow>
          if n < length (analyses st) \<and> \<not> analyses st ! n
          then analyzeInterview_resume r c1 c2 (st\<lparr>analyses := (analyses st)[n := True]\<rparr>)
          else st)"

text \<open>
  Lines 30-34: after the state changes React renders again, and runs the effect when
  \<^verbatim>\<open>currentQuestionIndex\<close> or \<^verbatim>\<open>cameraReady\<close> differs from the last run; the effect
  calls the \<^verbatim>\<open>startRecording\<close> of the new render.
\<close>

definition render :: "sessionData \<Rightarrow> user_agent \<Rightarrow> state \<Rightarrow> state" where
  "render sd ua st =
     (if effect_deps st = (currentQuestionIndex st, cameraReady st) then st
      else
        let st1 = st\<lparr>effect_deps := (currentQuestionIndex st, cameraReady st)\<rparr> in
        if cameraReady st1 \<and> currentQuestion sd (render_env st1) \<noteq> None
        then startRecording sd ua (render_env st1) st1 else st1)"

definition step :: "sessionData \<Rightarrow> user_agent \<Rightarrow> state \<Rightarrow> event \<Rightarrow> state" where
  "step sd ua st ev = render sd ua (handle sd ev st)"

definition run :: "sessionData \<Rightarrow> user_agent \<Rightarrow> event list \<Rightarrow> state" where
  "run sd ua evs = foldl (step sd ua) init evs"

section \<open>Invariants of the runs\<close>

text \<open>
  A recorder that has not yet fired its stop event, a request to the upload endpoint whose
  response has not arrived, and a call of the analysis endpoint each count as one token.
  A run holds at most one token. Moreover, in every state of a run: every timer was armed
  by a render whose \<^verbatim>\<open>recording\<close> was false; only the newest recorder can be live, and
  \<^verbatim>\<open>mediaRecorderRef\<close> holds it; nothing exists before \<^verbatim>\<open>getUserMedia\<close> has
  answered; while the newest recorder records, \<^verbatim>\<open>recording\<close> is true; and
  \<^verbatim>\<open>onComplete\<close> was called at most twice for each analysis call that has returned.
  \<open>synced\<close> says that the effect of lines 30-34 has run for the current dependencies.
\<close>

definition inactive :: "recorder \<Rightarrow> bool" where
  "inactive r = (r_state r = RInactive)"

definition pending :: "state \<Rightarrow> nat" where
  "pending st = length (filter (\<lambda>u. \<not> u_resolved u) (uploads st))"

definition live :: "state \<Rightarrow> nat" where
  "live st = (if recorders st \<noteq> [] \<and> \<not> inactive (last (recorders st)) then 1 else 0)"

definition tokens :: "state \<Rightarrow> nat" where
  "tokens st = live st + pending st + length (analyses st)"

definition inv0 :: "state \<Rightarrow> bool" where
  "inv0 st = (list_all (\<lambda>t. \<not> e_recording (t_env t)) (timers st)
     \<and> list_all inactive (butlast (recorders st))
     \<and> mediaRecorderRef st = (if recorders st = [] then None else Some (length (recorders st) - 1))
     \<and> tokens st \<le> 1
     \<and> (camera_pending st \<longrightarrow> \<not> cameraReady st \<and> recorders st = [] \<and> uploads st = [] \<and> analyses st = [])
     \<and> (recorders st \<noteq> [] \<and> r_state (last (recorders st)) = RRecording \<longrightarrow> recording st)
     \<and> completions st \<le> 2 * length (filter (\<lambda>b. b) (analyses st)))"

definition synced :: "state \<Rightarrow> bool" where
  "synced st = (effect_deps st = (currentQuestionIndex st, cameraReady st))"

section \<open>Example inputs\<close>

definition one_question :: sessionData where
  "one_question = \<lparr>session_id = ''s'', questions_field =
     Some [\<lparr>q_id = ''q0'', q_text = ''Why?'', estimated_seconds = Some 1\<rparr>]\<rparr>"

definition two_questions :: sessionData where
  "two_questions = \<lparr>session_id = ''s'', questions_field =
     Some [\<lparr>q_id = ''q0'', q_text = ''Why?'', estimated_seconds = Some 2\<rparr>,
           \<lparr>q_id = ''q1'', q_text = ''How?'', estimated_seconds = None\<rparr>]\<rparr>"

definition webm_agent :: user_agent where
  "webm_agent = \<lparr>audio_tracks = 1, supported_types = [''audio/webm''],
     ctor_with_options_ok = True, ctor_plain_ok = True, default_mimeType = ''''\<rparr>"

section \<open>The invariant holds in every run\<close>

lemmas handler_defs = startRecording_def stopRecording_def handleNextQuestion_def
  handleNextQuestion_resume_def handleRecordingStop_def uploadAnswer_def uploadAnswer_resume_def
  analyzeInterview_def analyzeInterview_resume_def analyzeInterview_catch_def stopCamera_def recorder_stop_def clearInterval_def
  tick_def recorder_events_def handle_def render_def step_def render_env_def currentQuestion_def
  questions_def questionTime_def new_MediaRecorder_def pick_mimeType_def types_def or_webm_def

lemmas example_defs = one_question_def two_questions_def webm_agent_def init_def

lemma only_last_active:
  assumes "list_all P (butlast xs)" "r < length xs" "\<not> P (xs ! r)"
  shows "r = length xs - 1"
proof (rule ccontr)
  assume "r \<noteq> length xs - 1"
  with assms(2) have "r < length (butlast xs)" by simp
  with assms(1) have "P (butlast xs ! r)" by (simp add: list_all_length)
  with \<open>r < length (butlast xs)\<close> assms(3) show False by (simp add: nth_butlast)
qed

lemma all_of_butlast_last:
  "list_all P (butlast xs) \<Longrightarrow> xs = [] \<or> P (last xs) \<Longrightarrow> list_all P xs"
  by (cases xs rule: rev_cases) auto

lemma filter_update_count:
  "n < length xs \<Longrightarrow>
   length (filter P (xs[n := y])) + (if P (xs ! n) then 1 else 0)
     = length (filter P xs) + (if P y then 1 else 0)"
proof (induction xs arbitrary: n)
  case Nil then show ?case by simp
next
  case (Cons x xs)
  then show ?case by (cases n) auto
qed

lemma stopRecording_stale: "\<not> e_recording e \<Longrightarrow> stopRecording e st = st"
  by (simp add: stopRecording_def split: option.splits)

lemma tick_stale:
  "\<not> e_recording e \<Longrightarrow>
   tick e st = st\<lparr>timeLeft := (if timeLeft st \<le> 1 then 0 else timeLeft st - 1)\<rparr>"
  by (simp add: tick_def stopRecording_stale)

lemmas inv_defs = inv0_def tokens_def live_def pending_def synced_def

lemma handle_Tick:
  assumes "inv0 st"
  shows "handle sd (Tick t) st = st \<or>
         handle sd (Tick t) st = st\<lparr>timeLeft := (if timeLeft st \<le> 1 then 0 else timeLeft st - 1)\<rparr>"
proof (cases "t < length (timers st) \<and> \<not> t_cleared (timers st ! t)")
  case True
  with assms have "\<not> e_recording (t_env (timers st ! t))"
    by (simp add: inv0_def list_all_length)
  with True show ?thesis by (simp add: handle_def tick_stale)
next
  case False
  then show ?thesis by (auto simp: handle_def)
qed

lemma timeLeft_irrelevant:
  "inv0 (st\<lparr>timeLeft := x\<rparr>) = inv0 st" "synced (st\<lparr>timeLeft := x\<rparr>) = synced st"
  "tokens (st\<lparr>timeLeft := x\<rparr>) = tokens st"
  by (simp_all add: inv_defs)

lemma inv_Tick:
  assumes "inv0 st" "synced st"
  shows "inv0 (handle sd (Tick t) st) \<and> synced (handle sd (Tick t) st)"
  using handle_Tick [OF assms(1), of sd t] assms by (auto simp: timeLeft_irrelevant)

lemma inv_CameraGranted:
  assumes "inv0 st" "synced st"
  shows "inv0 (handle sd CameraGranted st) \<and>
         (synced (handle sd CameraGranted st) \<or> tokens (handle sd CameraGranted st) = 0)"
  using assms by (auto simp: handle_def inv_defs)

lemma inv_CameraDenied:
  assumes "inv0 st" "synced st"
  shows "inv0 (handle sd CameraDenied st) \<and> synced (handle sd CameraDenied st)"
  using assms by (auto simp: handle_def inv_defs)

lemma inv_ClickNext:
  assumes "inv0 st" "synced st"
  shows "inv0 (handle sd ClickNext st) \<and> synced (handle sd ClickNext st)"
  using assms
  by (auto simp: handle_def inv_defs handleNextQuestion_def recorder_stop_def render_env_def
      Let_def butlast_list_update last_list_update inactive_def last_conv_nth split: if_splits)

lemma uploadAnswer_frame:
  "recorders (uploadAnswer sd e b st) = recorders st"
  "timers (uploadAnswer sd e b st) = timers st"
  "analyses (uploadAnswer sd e b st) = analyses st"
  "completions (uploadAnswer sd e b st) = completions st"
  "mediaRecorderRef (uploadAnswer sd e b st) = mediaRecorderRef st"
  "camera_pending (uploadAnswer sd e b st) = camera_pending st"
  "cameraReady (uploadAnswer sd e b st) = cameraReady st"
  "recording (uploadAnswer sd e b st) = recording st"
  "currentQuestionIndex (uploadAnswer sd e b st) = currentQuestionIndex st"
  "effect_deps (uploadAnswer sd e b st) = effect_deps st"
  "audioChunksRef (uploadAnswer sd e b st) = audioChunksRef st"
  by (simp_all add: uploadAnswer_def Let_def split: option.splits)

lemma uploadAnswer_pending:
  "pending (uploadAnswer sd e b st) \<le> Suc (pending st)"
  "uploads (uploadAnswer sd e b st) \<noteq> [] \<or> uploads st = []"
  by (auto simp add: uploadAnswer_def pending_def Let_def split: option.splits)

lemma inv_RecorderStop:
  assumes "inv0 st" "synced st"
  shows "inv0 (handle sd (RecorderStop r sz) st) \<and> synced (handle sd (RecorderStop r sz) st)"
proof (cases "r < length (recorders st) \<and> r_state (recorders st ! r) \<noteq> RInactive")
  case False
  with assms show ?thesis by (auto simp: handle_def)
next
  case True
  with assms(1) have r: "r = length (recorders st) - 1"
    using only_last_active [of inactive "recorders st" r] by (simp add: inv0_def inactive_def)
  from True have ne: "recorders st \<noteq> []" by auto
  with True r have "live st = 1" by (simp add: live_def inactive_def last_conv_nth)
  with assms(1) have zero: "pending st = 0" "analyses st = []" by (simp_all add: inv0_def tokens_def)
  define st2 where "st2 = (if sz > 0 then st\<lparr>audioChunksRef := audioChunksRef st @ [sz]\<rparr> else st)
      \<lparr>recorders := (recorders st)[r := (recorders st ! r)\<lparr>r_state := RInactive\<rparr>]\<rparr>"
  have st2: "inv0 st2" "synced st2" "pending st2 = 0" "live st2 = 0" "analyses st2 = []"
    "\<not> camera_pending st2"
    using assms zero ne r
    by (auto simp: st2_def inv_defs butlast_list_update last_list_update inactive_def)
  have h: "handle sd (RecorderStop r sz) st =
     (case r_onstop (recorders st2 ! r) of
           HandleRecordingStop e \<Rightarrow> handleRecordingStop sd e st2
         | ResolveWaitForStop e \<Rightarrow> handleNextQuestion_resume sd e r st2)"
    using True by (auto simp add: handle_def recorder_events_def st2_def Let_def split: onstop.splits)
  have up: "inv0 (uploadAnswer sd e b st2) \<and> synced (uploadAnswer sd e b st2)" for e b
    using st2 uploadAnswer_pending(1) [of sd e b st2]
    by (simp add: inv_defs uploadAnswer_frame)
  have lk: "inv0 (st2\<lparr>uploadLockedRef := x\<rparr>) \<and> synced (st2\<lparr>uploadLockedRef := x\<rparr>)" for x
    using st2 by (simp add: inv_defs)
  show ?thesis
    unfolding h using up lk st2(1,2)
    by (auto simp: handleRecordingStop_def handleNextQuestion_resume_def split: onstop.splits)
qed


lemma inv_UploadResponse:
  assumes "inv0 st" "synced st"
  shows "inv0 (handle sd (UploadResponse n r) st) \<and>
     (synced (handle sd (UploadResponse n r) st) \<or> tokens (handle sd (UploadResponse n r) st) = 0)"
proof (cases "n < length (uploads st) \<and> \<not> u_resolved (uploads st ! n)")
  case False
  with assms show ?thesis by (auto simp: handle_def)
next
  case True
  define st1 where "st1 = st\<lparr>uploads := (uploads st)[n := (uploads st ! n)\<lparr>u_resolved := True\<rparr>]\<rparr>"
  from True have "Suc (pending st1) = pending st"
    using filter_update_count [of n "uploads st" "\<lambda>u. \<not> u_resolved u" "(uploads st ! n)\<lparr>u_resolved := True\<rparr>"]
    by (simp add: st1_def pending_def)
  moreover from assms(1) have "live st + pending st + length (analyses st) \<le> 1"
    by (simp add: inv0_def tokens_def)
  ultimately have "pending st1 = 0 \<and> live st = 0 \<and> length (analyses st) = 0"
    by arith
  then have zero: "pending st1 = 0" "live st = 0" "analyses st = []"
    by simp_all
  from True assms(1) have cp: "\<not> camera_pending st" by (auto simp: inv0_def)
  have st1: "inv0 st1" "synced st1" "tokens st1 = 0"
    using assms zero cp by (auto simp: st1_def inv_defs split: if_splits)
  have h: "handle sd (UploadResponse n r) st = uploadAnswer_resume sd (u_env (uploads st ! n)) r st1"
    using True by (simp add: handle_def st1_def)
  show ?thesis
    unfolding h using st1 cp
    by (auto simp: uploadAnswer_resume_def analyzeInterview_def stopCamera_def inv_defs Let_def st1_def
        split: if_splits)
qed

lemma inv_AnalyzeResponse:
  assumes "inv0 st" "synced st"
  shows "inv0 (handle sd (AnalyzeResponse n r c1 c2) st)
       \<and> synced (handle sd (AnalyzeResponse n r c1 c2) st)"
proof (cases "n < length (analyses st) \<and> \<not> analyses st ! n")
  case False
  with assms show ?thesis by (auto simp: handle_def)
next
  case True
  then have "length (filter (\<lambda>b. b) ((analyses st)[n := True])) = Suc (length (filter (\<lambda>b. b) (analyses st)))"
    using filter_update_count [of n "analyses st" "\<lambda>b. b" True] by simp
  with True assms show ?thesis
    by (auto simp: handle_def analyzeInterview_resume_def analyzeInterview_catch_def inv_defs Let_def)
qed

lemma inv_render:
  assumes "inv0 st" "synced st \<or> tokens st = 0"
  shows "inv0 (render sd ua st) \<and> synced (render sd ua st)"
proof (cases "synced st")
  case True
  with assms show ?thesis by (simp add: render_def synced_def)
next
  case False
  with assms have t0: "tokens st = 0" by simp
  with assms(1) have all: "list_all inactive (recorders st)"
    using all_of_butlast_last [of inactive "recorders st"]
    by (auto simp: inv0_def tokens_def live_def split: if_splits)
  show ?thesis
    using assms(1) t0 all
    by (auto simp: render_def startRecording_def render_env_def inv_defs Let_def inactive_def
        split: option.splits if_splits)
qed

lemma inv_handle:
  assumes "inv0 st" "synced st"
  shows "inv0 (handle sd ev st) \<and> (synced (handle sd ev st) \<or> tokens (handle sd ev st) = 0)"
proof (cases ev)
  case CameraGranted
  then show ?thesis using inv_CameraGranted [OF assms] by simp
next
  case CameraDenied
  then show ?thesis using inv_CameraDenied [OF assms] by simp
next
  case (Tick t)
  then show ?thesis using inv_Tick [OF assms] by simp
next
  case ClickNext
  then show ?thesis using inv_ClickNext [OF assms] by simp
next
  case (RecorderStop r sz)
  then show ?thesis using inv_RecorderStop [OF assms] by simp
next
  case (UploadResponse n r)
  then show ?thesis using inv_UploadResponse [OF assms] by simp
next
  case (AnalyzeResponse n r c1 c2)
  then show ?thesis using inv_AnalyzeResponse [OF assms] by simp
qed

lemma inv_step:
  assumes "inv0 st \<and> synced st"
  shows "inv0 (step sd ua st ev) \<and> synced (step sd ua st ev)"
  unfolding step_def using inv_handle [of st sd ev] inv_render [of "handle sd ev st" sd ua] assms
  by blast

lemma inv_init: "inv0 init \<and> synced init"
  by (simp add: inv_defs init_def)

lemma inv_foldl:
  "inv0 st \<and> synced st \<Longrightarrow> inv0 (foldl (step sd ua) st evs) \<and> synced (foldl (step sd ua) st evs)"
proof (induction evs arbitrary: st)
  case Nil then show ?case by simp
next
  case (Cons ev evs)
  from Cons.prems have "inv0 (step sd ua st ev) \<and> synced (step sd ua st ev)" by (rule inv_step)
  then show ?case using Cons.IH by simp
qed

lemma inv_run: "inv0 (run sd ua evs) \<and> synced (run sd ua evs)"
  unfolding run_def using inv_init by (rule inv_foldl)

lemma countdown:
  "int k < timeLeft st \<Longrightarrow> (tick e ^^ k) st = st\<lparr>timeLeft := timeLeft st - int k\<rparr>"
proof (induction k)
  case 0 then show ?case by simp
next
  case (Suc k)
  then have "(tick e ^^ k) st = st\<lparr>timeLeft := timeLeft st - int k\<rparr>" by simp
  then have "(tick e ^^ Suc k) st = tick e (st\<lparr>timeLeft := timeLeft st - int k\<rparr>)" by simp
  also from Suc.prems have "\<dots> = st\<lparr>timeLeft := timeLeft st - int (Suc k)\<rparr>"
    unfolding tick_def by (simp add: algebra_simps)
  finally show ?case .
qed

section \<open>States in which nothing is in flight\<close>

text \<open>
  When no recorder is live, no upload awaits its response and every analysis call has
  returned, no event sends another request or changes the question index.
\<close>

lemma render_synced: "synced st \<Longrightarrow> render sd ua st = st"
  by (simp add: render_def synced_def)

lemma pending_zero_resolved:
  "pending st = 0 \<Longrightarrow> n < length (uploads st) \<Longrightarrow> u_resolved (uploads st ! n)"
  by (auto simp: pending_def filter_empty_conv)

lemma live_zero_inactive:
  assumes "inv0 st" "live st = 0" "r < length (recorders st)"
  shows "r_state (recorders st ! r) = RInactive"
proof -
  from assms(1,2) have "list_all inactive (recorders st)"
    using all_of_butlast_last [of inactive "recorders st"]
    by (auto simp: inv0_def live_def split: if_splits)
  with assms(3) show ?thesis by (simp add: list_all_length inactive_def)
qed

lemma quiescent_handle:
  assumes "inv0 st" "synced st" "live st = 0" "pending st = 0" "list_all (\<lambda>b. b) (analyses st)"
    and "\<not> camera_pending st"
  shows "synced (handle sd ev st) \<and> live (handle sd ev st) = 0 \<and> pending (handle sd ev st) = 0
       \<and> \<not> camera_pending (handle sd ev st)
       \<and> currentQuestionIndex (handle sd ev st) = currentQuestionIndex st
       \<and> uploads (handle sd ev st) = uploads st
       \<and> analyses (handle sd ev st) = analyses st
       \<and> completions (handle sd ev st) = completions st
       \<and> length (recorders (handle sd ev st)) = length (recorders st)"
proof (cases ev)
  case CameraGranted
  with assms show ?thesis by (simp add: handle_def)
next
  case CameraDenied
  with assms show ?thesis by (simp add: handle_def)
next
  case (Tick t)
  have "handle sd ev st = st \<or>
        handle sd ev st = st\<lparr>timeLeft := (if timeLeft st \<le> 1 then 0 else timeLeft st - 1)\<rparr>"
    using handle_Tick [OF assms(1), of sd t] Tick by simp
  then show ?thesis
    using assms by (elim disjE) (simp_all add: live_def pending_def synced_def)
next
  case ClickNext
  have "r_state (recorders st ! r) \<noteq> RRecording" if "r < length (recorders st)" for r
    using live_zero_inactive [OF assms(1,3) that] by simp
  with assms ClickNext show ?thesis
    by (auto simp: handle_def handleNextQuestion_def recorder_stop_def Let_def inv_defs
        last_list_update last_conv_nth inactive_def split: option.splits if_splits)
next
  case (RecorderStop r sz)
  with assms live_zero_inactive [OF assms(1,3), of r] show ?thesis
    by (auto simp: handle_def)
next
  case (UploadResponse n r)
  with assms pending_zero_resolved [OF assms(4), of n] show ?thesis
    by (auto simp: handle_def)
next
  case (AnalyzeResponse n r c1 c2)
  with assms show ?thesis
    by (auto simp: handle_def list_all_length)
qed

lemma quiescent_step:
  assumes "inv0 st" "synced st" "live st = 0" "pending st = 0" "list_all (\<lambda>b. b) (analyses st)"
    and "\<not> camera_pending st"
  shows "inv0 (step sd ua st ev) \<and> synced (step sd ua st ev) \<and> live (step sd ua st ev) = 0
       \<and> pending (step sd ua st ev) = 0 \<and> list_all (\<lambda>b. b) (analyses (step sd ua st ev))
       \<and> \<not> camera_pending (step sd ua st ev)"
    and "currentQuestionIndex (step sd ua st ev) = currentQuestionIndex st
       \<and> uploads (step sd ua st ev) = uploads st
       \<and> analyses (step sd ua st ev) = analyses st
       \<and> completions (step sd ua st ev) = completions st
       \<and> length (recorders (step sd ua st ev)) = length (recorders st)"
proof -
  have eq: "step sd ua st ev = handle sd ev st"
    using quiescent_handle [OF assms, of sd ev] by (simp add: step_def render_synced)
  have "inv0 (step sd ua st ev)"
    using inv_step [of st sd ua ev] assms(1,2) by simp
  then have i: "inv0 (handle sd ev st)" by (simp add: eq)
  show "inv0 (step sd ua st ev) \<and> synced (step sd ua st ev) \<and> live (step sd ua st ev) = 0
       \<and> pending (step sd ua st ev) = 0 \<and> list_all (\<lambda>b. b) (analyses (step sd ua st ev))
       \<and> \<not> camera_pending (step sd ua st ev)"
    unfolding eq using quiescent_handle [OF assms, of sd ev] assms(5) i by presburger
  show "currentQuestionIndex (step sd ua st ev) = currentQuestionIndex st
       \<and> uploads (step sd ua st ev) = uploads st
       \<and> analyses (step sd ua st ev) = analyses st
       \<and> completions (step sd ua st ev) = completions st
       \<and> length (recorders (step sd ua st ev)) = length (recorders st)"
    unfolding eq using quiescent_handle [OF assms, of sd ev] by blast
qed

lemma quiescent_foldl:
  assumes "inv0 st" "synced st" "live st = 0" "pending st = 0" "list_all (\<lambda>b. b) (analyses st)"
    and "\<not> camera_pending st"
  shows "currentQuestionIndex (foldl (step sd ua) st evs) = currentQuestionIndex st
       \<and> uploads (foldl (step sd ua) st evs) = uploads st
       \<and> analyses (foldl (step sd ua) st evs) = analyses st
       \<and> completions (foldl (step sd ua) st evs) = completions st
       \<and> length (recorders (foldl (step sd ua) st evs)) = length (recorders st)"
  using assms
proof (induction evs arbitrary: st)
  case Nil
  then show ?case by simp
next
  case (Cons ev evs)
  note p = quiescent_step(1) [OF Cons.prems, of sd ua ev]
  note q = quiescent_step(2) [OF Cons.prems, of sd ua ev]
  have "currentQuestionIndex (foldl (step sd ua) (step sd ua st ev) evs)
                 = currentQuestionIndex (step sd ua st ev)
       \<and> uploads (foldl (step sd ua) (step sd ua st ev) evs) = uploads (step sd ua st ev)
       \<and> analyses (foldl (step sd ua) (step sd ua st ev) evs) = analyses (step sd ua st ev)
       \<and> completions (foldl (step sd ua) (step sd ua st ev) evs) = completions (step sd ua st ev)
       \<and> length (recorders (foldl (step sd ua) (step sd ua st ev) evs))
            = length (recorders (step sd ua st ev))"
    by (rule Cons.IH) (use p in simp_all)
  with q show ?case by simp
qed

lemma unresolved_facts:
  assumes "inv0 st" "n < length (uploads st)" "\<not> u_resolved (uploads st ! n)"
  shows "live st = 0" "analyses st = []" "\<not> camera_pending st"
    "pending (st\<lparr>uploads := (uploads st)[n := (uploads st ! n)\<lparr>u_resolved := True\<rparr>]\<rparr>) = 0"
proof -
  let ?st1 = "st\<lparr>uploads := (uploads st)[n := (uploads st ! n)\<lparr>u_resolved := True\<rparr>]\<rparr>"
  have "Suc (pending ?st1) = pending st"
    using assms(2,3)
      filter_update_count [of n "uploads st" "\<lambda>u. \<not> u_resolved u" "(uploads st ! n)\<lparr>u_resolved := True\<rparr>"]
    by (simp add: pending_def)
  moreover from assms(1) have "live st + pending st + length (analyses st) \<le> 1"
    by (simp add: inv0_def tokens_def)
  ultimately have "pending ?st1 = 0 \<and> live st = 0 \<and> length (analyses st) = 0"
    by arith
  then show "live st = 0" "analyses st = []" "pending ?st1 = 0" by simp_all
  from assms show "\<not> camera_pending st" by (auto simp: inv0_def)
qed

section \<open>The claims\<close>

text \<open>
  C9. For every question whose \<^verbatim>\<open>estimated_seconds\<close> is 0 or absent, the countdown
  timer is armed with a duration of 90 seconds; otherwise it is armed with that question's
  \<^verbatim>\<open>estimated_seconds\<close>. Whenever \<^verbatim>\<open>startRecording\<close> gets as far as arming the
  timer (a stream, no recording in its render, an audio track, a recorder built), the
  countdown starts at that value, a new interval is made and stored in \<^verbatim>\<open>timerRef\<close>, and
  each tick before the value is used up takes one second off.
\<close>

theorem startRecording_arms_timer:
  assumes "streamRef st" "\<not> e_recording e" "audio_tracks ua \<noteq> 0" "new_MediaRecorder ua \<noteq> None"
    and "currentQuestion sd e = Some q"
  shows "(estimated_seconds q = None \<or> estimated_seconds q = Some 0 \<longrightarrow>
            timeLeft (startRecording sd ua e st) = 90)
       \<and> (\<forall>n. estimated_seconds q = Some n \<and> n \<noteq> 0 \<longrightarrow>
            timeLeft (startRecording sd ua e st) = n)
       \<and> timers (startRecording sd ua e st) = timers st @ [\<lparr>t_env = e, t_cleared = False\<rparr>]
       \<and> timerRef (startRecording sd ua e st) = Some (length (timers st))
       \<and> (\<forall>k. int k < timeLeft (startRecording sd ua e st) \<longrightarrow>
            timeLeft ((tick e ^^ k) (startRecording sd ua e st))
              = timeLeft (startRecording sd ua e st) - int k)"
proof -
  have "\<forall>k. int k < timeLeft (startRecording sd ua e st) \<longrightarrow>
            timeLeft ((tick e ^^ k) (startRecording sd ua e st))
              = timeLeft (startRecording sd ua e st) - int k"
    by (simp add: countdown)
  moreover have "(estimated_seconds q = None \<or> estimated_seconds q = Some 0 \<longrightarrow>
            timeLeft (startRecording sd ua e st) = 90)
       \<and> (\<forall>n. estimated_seconds q = Some n \<and> n \<noteq> 0 \<longrightarrow>
            timeLeft (startRecording sd ua e st) = n)
       \<and> timers (startRecording sd ua e st) = timers st @ [\<lparr>t_env = e, t_cleared = False\<rparr>]
       \<and> timerRef (startRecording sd ua e st) = Some (length (timers st))"
    using assms by (auto simp: startRecording_def questionTime_def Let_def)
  ultimately show ?thesis by blast
qed

text \<open>The second question of the example has no \<^verbatim>\<open>estimated_seconds\<close>, the first has 2.\<close>

theorem startRecording_arms_timer_witness:
  "streamRef (init\<lparr>streamRef := True\<rparr>)
   \<and> \<not> e_recording \<lparr>e_index = 1, e_recording = False\<rparr>
   \<and> audio_tracks webm_agent \<noteq> 0
   \<and> new_MediaRecorder webm_agent \<noteq> None
   \<and> currentQuestion two_questions \<lparr>e_index = 1, e_recording = False\<rparr>
        = Some \<lparr>q_id = ''q1'', q_text = ''How?'', estimated_seconds = None\<rparr>
   \<and> timeLeft (startRecording two_questions webm_agent \<lparr>e_index = 1, e_recording = False\<rparr>
        (init\<lparr>streamRef := True\<rparr>)) = 90
   \<and> currentQuestion two_questions \<lparr>e_index = 0, e_recording = False\<rparr>
        = Some \<lparr>q_id = ''q0'', q_text = ''Why?'', estimated_seconds = Some 2\<rparr>
   \<and> timeLeft (startRecording two_questions webm_agent \<lparr>e_index = 0, e_recording = False\<rparr>
        (init\<lparr>streamRef := True\<rparr>)) = 2"
proof -
  have h: "streamRef (init\<lparr>streamRef := True\<rparr>)"
          "\<not> e_recording \<lparr>e_index = 1, e_recording = False\<rparr>"
          "\<not> e_recording \<lparr>e_index = 0, e_recording = False\<rparr>"
          "audio_tracks webm_agent \<noteq> 0" "new_MediaRecorder webm_agent \<noteq> None"
    by (simp_all add: webm_agent_def new_MediaRecorder_def)
  have q1: "currentQuestion two_questions \<lparr>e_index = 1, e_recording = False\<rparr>
        = Some \<lparr>q_id = ''q1'', q_text = ''How?'', estimated_seconds = None\<rparr>"
    by (simp add: currentQuestion_def questions_def two_questions_def)
  have q0: "currentQuestion two_questions \<lparr>e_index = 0, e_recording = False\<rparr>
        = Some \<lparr>q_id = ''q0'', q_text = ''Why?'', estimated_seconds = Some 2\<rparr>"
    by (simp add: currentQuestion_def questions_def two_questions_def)
  show ?thesis
    using h q0 q1
      startRecording_arms_timer [OF h(1) h(2) h(4) h(5) q1]
      startRecording_arms_timer [OF h(1) h(3) h(4) h(5) q0]
    by simp
qed

text \<open>
  C8. If an upload for question i fails (non-2xx response or network error), session
  progression halts at that question: the current question index is not advanced, no next
  recording is started by the upload path, and the analysis call is not issued; no automatic
  retry occurs. In every state a run reaches, a failed response to an upload in flight
  leaves the index, the recorders and \<^verbatim>\<open>mediaRecorderRef\<close> as they were, issues no
  analysis, sends no request, shows the alert and clears \<^verbatim>\<open>uploading\<close>; and whatever
  events follow, the index stays, no request is ever sent again, no analysis is issued and
  no recorder is made.
\<close>

theorem upload_failure_halts:
  assumes "st = run sd ua evs"
    and "n < length (uploads st)" "\<not> u_resolved (uploads st ! n)"
    and "r = NotOk \<or> r = NetworkError"
  shows "currentQuestionIndex (step sd ua st (UploadResponse n r)) = currentQuestionIndex st
       \<and> recorders (step sd ua st (UploadResponse n r)) = recorders st
       \<and> mediaRecorderRef (step sd ua st (UploadResponse n r)) = mediaRecorderRef st
       \<and> analyses (step sd ua st (UploadResponse n r)) = []
       \<and> uploads (step sd ua st (UploadResponse n r))
            = (uploads st)[n := (uploads st ! n)\<lparr>u_resolved := True\<rparr>]
       \<and> \<not> uploading (step sd ua st (UploadResponse n r))
       \<and> alerts (step sd ua st (UploadResponse n r)) = alerts st @ [upload_error_alert]
       \<and> (\<forall>evs'. currentQuestionIndex (foldl (step sd ua) (step sd ua st (UploadResponse n r)) evs')
                    = currentQuestionIndex st
                \<and> length (uploads (foldl (step sd ua) (step sd ua st (UploadResponse n r)) evs'))
                    = length (uploads st)
                \<and> analyses (foldl (step sd ua) (step sd ua st (UploadResponse n r)) evs') = []
                \<and> length (recorders (foldl (step sd ua) (step sd ua st (UploadResponse n r)) evs'))
                    = length (recorders st))"
proof -
  let ?s = "step sd ua st (UploadResponse n r)"
  let ?st1 = "st\<lparr>uploads := (uploads st)[n := (uploads st ! n)\<lparr>u_resolved := True\<rparr>]\<rparr>"
  from assms(1) have i: "inv0 st" "synced st" using inv_run [of sd ua evs] by simp_all
  note u = unresolved_facts [OF i(1) assms(2,3)]
  from assms(4) have r: "r \<noteq> Ok" by auto
  have h: "handle sd (UploadResponse n r) st = ?st1\<lparr>alerts := alerts st @ [upload_error_alert], uploading := False\<rparr>"
    using assms(2,3) r by (simp add: handle_def uploadAnswer_resume_def)
  have s: "?s = ?st1\<lparr>alerts := alerts st @ [upload_error_alert], uploading := False\<rparr>"
    unfolding step_def h using i(2) by (simp add: render_def synced_def)
  have now: "currentQuestionIndex ?s = currentQuestionIndex st \<and> recorders ?s = recorders st
       \<and> mediaRecorderRef ?s = mediaRecorderRef st \<and> analyses ?s = []
       \<and> uploads ?s = (uploads st)[n := (uploads st ! n)\<lparr>u_resolved := True\<rparr>]
       \<and> \<not> uploading ?s \<and> alerts ?s = alerts st @ [upload_error_alert]"
    unfolding s using u(2) by simp
  have q: "inv0 ?s" "synced ?s" "live ?s = 0" "pending ?s = 0" "list_all (\<lambda>b. b) (analyses ?s)"
    "\<not> camera_pending ?s"
    using inv_step [of st sd ua "UploadResponse n r"] i u
    by (simp_all add: s live_def pending_def)
  have later: "currentQuestionIndex (foldl (step sd ua) ?s evs') = currentQuestionIndex st
                \<and> length (uploads (foldl (step sd ua) ?s evs')) = length (uploads st)
                \<and> analyses (foldl (step sd ua) ?s evs') = []
                \<and> length (recorders (foldl (step sd ua) ?s evs')) = length (recorders st)" for evs'
    using quiescent_foldl [OF q, of sd ua evs'] now by simp
  from now later show ?thesis by blast
qed

text \<open>The upload of the first of two questions, answered with a non-2xx response.\<close>

theorem upload_failure_halts_witness:
  "(let st = run two_questions webm_agent [CameraGranted, ClickNext, RecorderStop 0 5]
    in 0 < length (uploads st) \<and> \<not> u_resolved (uploads st ! 0)
       \<and> currentQuestionIndex st = 0
       \<and> length (recorders st) = 1
       \<and> currentQuestionIndex (step two_questions webm_agent st (UploadResponse 0 NotOk)) = 0
       \<and> length (recorders (step two_questions webm_agent st (UploadResponse 0 NotOk))) = 1
       \<and> analyses (step two_questions webm_agent st (UploadResponse 0 NotOk)) = []
       \<and> length (uploads (step two_questions webm_agent st (UploadResponse 0 NotOk))) = 1)"
proof -
  define st where "st = run two_questions webm_agent [CameraGranted, ClickNext, RecorderStop 0 5]"
  have u: "uploads st = [\<lparr>u_env = \<lparr>e_index = 0, e_recording = True\<rparr>, u_session = ''s'',
             u_question = ''q0'', u_blob = \<lparr>b_parts = [5], b_type = ''audio/webm''\<rparr>,
             u_resolved = False\<rparr>]"
    and c: "currentQuestionIndex st = 0" and l: "length (recorders st) = 1"
    unfolding st_def by (simp_all add: run_def handler_defs example_defs)
  have h: "0 < length (uploads st)" "\<not> u_resolved (uploads st ! 0)" "NotOk = NotOk \<or> NotOk = NetworkError"
    by (simp_all add: u)
  show ?thesis
    using upload_failure_halts [OF st_def h] h c l u
    unfolding Let_def st_def [symmetric] by simp
qed




lemma at_most_one_outside:
  "list_all P (butlast xs) \<Longrightarrow> length (filter (\<lambda>x. \<not> P x) xs) \<le> 1"
  by (cases xs rule: rev_cases) (auto simp: list_all_iff filter_empty_conv)

lemma some_live:
  assumes "inv0 st" "x \<in> set (recorders st)" "r_state x \<noteq> RInactive"
  shows "live st = 1" "pending st = 0" "analyses st = []" "\<not> camera_pending st"
    "r_state (last (recorders st)) = r_state x"
proof -
  from assms(2) obtain r where r: "r < length (recorders st)" "recorders st ! r = x"
    by (auto simp: in_set_conv_nth)
  with assms have "r = length (recorders st) - 1"
    using only_last_active [of inactive "recorders st" r] by (simp add: inv0_def inactive_def)
  moreover from r(1) have "recorders st \<noteq> []" by auto
  ultimately have l: "last (recorders st) = x" using r(2) by (simp add: last_conv_nth)
  with assms(2,3) show "live st = 1" by (auto simp: live_def inactive_def)
  with assms(1) show "pending st = 0" "analyses st = []" by (simp_all add: inv0_def tokens_def)
  from assms(1,2) show "\<not> camera_pending st" by (auto simp: inv0_def)
  from l show "r_state (last (recorders st)) = r_state x" by simp
qed

lemma chunks_kept:
  assumes "inv0 st" "synced st" "x \<in> set (recorders st)" "r_state x \<noteq> RInactive"
  shows "\<exists>ys. audioChunksRef (step sd ua st ev) = audioChunksRef st @ ys"
proof -
  note l = some_live [OF assms(1,3,4)]
  have "synced (handle sd ev st) \<and> (\<exists>ys. audioChunksRef (handle sd ev st) = audioChunksRef st @ ys)"
  proof (cases ev)
    case CameraGranted
    with assms l show ?thesis by (simp add: handle_def)
  next
    case CameraDenied
    with assms l show ?thesis by (simp add: handle_def)
  next
    case (Tick t)
    have "handle sd ev st = st \<or>
        handle sd ev st = st\<lparr>timeLeft := (if timeLeft st \<le> 1 then 0 else timeLeft st - 1)\<rparr>"
      using handle_Tick [OF assms(1), of sd t] Tick by simp
    then show ?thesis using assms(2) by (elim disjE) (simp_all add: synced_def)
  next
    case ClickNext
    with assms(2) show ?thesis
      by (auto simp: handle_def handleNextQuestion_def recorder_stop_def Let_def synced_def
          split: option.splits)
  next
    case (RecorderStop r sz)
    have "synced (handle sd ev st)"
      using inv_RecorderStop [OF assms(1,2), of sd r sz] RecorderStop by simp
    moreover have "\<exists>ys. audioChunksRef (handle sd ev st) = audioChunksRef st @ ys"
      unfolding RecorderStop
      by (auto simp: handle_def recorder_events_def handleRecordingStop_def
          handleNextQuestion_resume_def uploadAnswer_frame Let_def split: onstop.splits)
    ultimately show ?thesis by simp
  next
    case (UploadResponse n r)
    with assms(2) pending_zero_resolved [OF l(2), of n] show ?thesis
      by (auto simp: handle_def)
  next
    case (AnalyzeResponse n r c1 c2)
    with assms(2) l(3) show ?thesis by (simp add: handle_def)
  qed
  then show ?thesis by (auto simp: step_def render_synced)
qed

text \<open>
  C10. Starting a recording is a no-op when no stream has been acquired or a recording is
  already active: the call returns before clearing the chunk buffer, resetting the upload
  lock, or constructing a new recorder, so at most one recorder is ever active at a time
  and an in-progress recording's chunks are never clobbered by a re-entrant start.
  \<^verbatim>\<open>startRecording\<close> with no stream, or from a render whose \<^verbatim>\<open>recording\<close> is true,
  returns the state as it is. In every state a run reaches, at most one recorder has not yet
  fired its stop event; while a recorder is recording, \<^verbatim>\<open>recording\<close> is true, so a
  start from the current render is a no-op; and while a recorder has not fired its stop
  event, whatever event comes next only appends to the chunk buffer.
\<close>

theorem startRecording_guard:
  "(\<not> streamRef st \<or> e_recording e \<longrightarrow> startRecording sd ua e st = st)
   \<and> length (filter (\<lambda>x. r_state x \<noteq> RInactive) (recorders (run sd ua evs))) \<le> 1
   \<and> ((\<exists>x \<in> set (recorders (run sd ua evs)). r_state x = RRecording) \<longrightarrow>
        recording (run sd ua evs)
        \<and> startRecording sd ua (render_env (run sd ua evs)) (run sd ua evs) = run sd ua evs)
   \<and> ((\<exists>x \<in> set (recorders (run sd ua evs)). r_state x \<noteq> RInactive) \<longrightarrow>
        (\<exists>ys. audioChunksRef (step sd ua (run sd ua evs) ev) = audioChunksRef (run sd ua evs) @ ys))"
proof -
  let ?s = "run sd ua evs"
  have i: "inv0 ?s" "synced ?s" using inv_run [of sd ua evs] by simp_all
  have a: "\<not> streamRef st \<or> e_recording e \<longrightarrow> startRecording sd ua e st = st"
    by (auto simp: startRecording_def)
  have b: "length (filter (\<lambda>x. r_state x \<noteq> RInactive) (recorders ?s)) \<le> 1"
    using at_most_one_outside [of inactive "recorders ?s"] i(1)
    by (simp add: inv0_def inactive_def)
  have c: "recording ?s \<and> startRecording sd ua (render_env ?s) ?s = ?s"
    if "x \<in> set (recorders ?s)" "r_state x = RRecording" for x
  proof -
    from that have "r_state (last (recorders ?s)) = RRecording"
      using some_live(5) [OF i(1) that(1)] by simp
    moreover from that(1) have "recorders ?s \<noteq> []" by auto
    ultimately have "recording ?s" using i(1) by (simp add: inv0_def)
    then show ?thesis by (simp add: startRecording_def render_env_def)
  qed
  have d: "\<exists>ys. audioChunksRef (step sd ua ?s ev) = audioChunksRef ?s @ ys"
    if "x \<in> set (recorders ?s)" "r_state x \<noteq> RInactive" for x
    using chunks_kept [OF i that] .
  from a b c d show ?thesis by blast
qed

text \<open>The state after the camera is granted: one recorder, recording; its data arrives.\<close>

theorem startRecording_guard_witness:
  "(\<exists>x \<in> set (recorders (run one_question webm_agent [CameraGranted])). r_state x = RRecording)
   \<and> e_recording (render_env (run one_question webm_agent [CameraGranted]))
   \<and> startRecording one_question webm_agent (render_env (run one_question webm_agent [CameraGranted]))
        (run one_question webm_agent [CameraGranted]) = run one_question webm_agent [CameraGranted]
   \<and> length (filter (\<lambda>x. r_state x \<noteq> RInactive)
        (recorders (run one_question webm_agent [CameraGranted]))) = 1
   \<and> audioChunksRef (step one_question webm_agent (run one_question webm_agent [CameraGranted])
        (RecorderStop 0 7)) = [7]"
proof -
  define s where "s = run one_question webm_agent [CameraGranted]"
  have r: "recorders s = [\<lparr>r_state = RRecording,
             r_onstop = HandleRecordingStop \<lparr>e_index = 0, e_recording = False\<rparr>,
             r_mimeType = ''audio/webm''\<rparr>]"
    and c: "audioChunksRef s = []" and e: "recording s"
    unfolding s_def by (simp_all add: run_def handler_defs example_defs)
  have x: "\<exists>x \<in> set (recorders s). r_state x = RRecording" by (simp add: r)
  have y: "\<exists>x \<in> set (recorders s). r_state x \<noteq> RInactive" by (simp add: r)
  have k: "audioChunksRef (step one_question webm_agent s (RecorderStop 0 7)) = [7]"
    unfolding s_def by (simp add: run_def handler_defs example_defs)
  show ?thesis
    using startRecording_guard [of s "render_env s" one_question webm_agent "[CameraGranted]" "RecorderStop 0 7"]
      x y k r e
    unfolding s_def [symmetric] by (simp add: render_env_def)
qed

lemma recording_facts:
  assumes "inv0 st" "r < length (recorders st)" "r_state (recorders st ! r) = RRecording"
  shows "mediaRecorderRef st = Some r" "recording st" "pending st = 0" "analyses st = []"
proof -
  from assms(2) have m: "recorders st ! r \<in> set (recorders st)" by simp
  from assms(3) have n: "r_state (recorders st ! r) \<noteq> RInactive" by simp
  note l = some_live [OF assms(1) m n]
  from l show "pending st = 0" "analyses st = []" by simp_all
  from assms have "r = length (recorders st) - 1"
    using only_last_active [of inactive "recorders st" r] by (simp add: inv0_def inactive_def)
  moreover from assms(2) have ne: "recorders st \<noteq> []" by auto
  ultimately show "mediaRecorderRef st = Some r" using assms(1) by (simp add: inv0_def)
  from l(5) assms(3) ne assms(1) show "recording st" by (simp add: inv0_def)
qed

lemma render_frame:
  "currentQuestionIndex (render sd ua st) = currentQuestionIndex st"
  "uploads (render sd ua st) = uploads st"
  "analyses (render sd ua st) = analyses st"
  "completions (render sd ua st) = completions st"
  by (simp_all add: render_def startRecording_def Let_def split: option.splits)

lemma click_while_recording:
  assumes "mediaRecorderRef s = Some r" "r < length (recorders s)"
    "r_state (recorders s ! r) = RRecording \<and> recording s
     \<or> r_state (recorders s ! r) = RStopping \<and> \<not> recording s"
    "synced s" "\<not> uploading s" "\<not> analyzing s"
  shows "mediaRecorderRef (step sd ua s ClickNext) = Some r
       \<and> r < length (recorders (step sd ua s ClickNext))
       \<and> r_state (recorders (step sd ua s ClickNext) ! r) = RStopping
       \<and> r_onstop (recorders (step sd ua s ClickNext) ! r) = ResolveWaitForStop (render_env s)
       \<and> \<not> recording (step sd ua s ClickNext)
       \<and> synced (step sd ua s ClickNext)
       \<and> \<not> uploading (step sd ua s ClickNext) \<and> \<not> analyzing (step sd ua s ClickNext)
       \<and> currentQuestionIndex (step sd ua s ClickNext) = currentQuestionIndex s
       \<and> uploads (step sd ua s ClickNext) = uploads s
       \<and> analyses (step sd ua s ClickNext) = analyses s"
proof -
  have h: "handle sd ClickNext s = handleNextQuestion (render_env s) s"
    using assms(5,6) by (simp add: handle_def)
  have "synced (handleNextQuestion (render_env s) s)"
    using assms(4) by (simp add: handleNextQuestion_def recorder_stop_def synced_def Let_def
        split: option.splits)
  then have e: "step sd ua s ClickNext = handleNextQuestion (render_env s) s"
    by (simp add: step_def h render_synced)
  show ?thesis
    unfolding e using assms
    by (auto simp: handleNextQuestion_def recorder_stop_def synced_def render_env_def Let_def)
qed

lemma stop_resumes_forced_advance:
  assumes "r < length (recorders s)" "r_state (recorders s ! r) = RStopping"
    "r_onstop (recorders s ! r) = ResolveWaitForStop e" "e_index e < length (questions sd)"
    "synced s"
  shows "uploading (step sd ua s (RecorderStop r sz))
       \<and> synced (step sd ua s (RecorderStop r sz))
       \<and> currentQuestionIndex (step sd ua s (RecorderStop r sz)) = currentQuestionIndex s
       \<and> analyses (step sd ua s (RecorderStop r sz)) = analyses s
       \<and> uploads (step sd ua s (RecorderStop r sz)) \<noteq> []
       \<and> butlast (uploads (step sd ua s (RecorderStop r sz))) = uploads s
       \<and> \<not> u_resolved (last (uploads (step sd ua s (RecorderStop r sz))))
       \<and> u_env (last (uploads (step sd ua s (RecorderStop r sz)))) = e
       \<and> u_question (last (uploads (step sd ua s (RecorderStop r sz))))
            = q_id (questions sd ! e_index e)"
proof -
  have "synced (handle sd (RecorderStop r sz) s)"
    using assms
    by (simp add: handle_def recorder_events_def handleNextQuestion_resume_def uploadAnswer_def
        currentQuestion_def synced_def Let_def)
  then have e: "step sd ua s (RecorderStop r sz) = handle sd (RecorderStop r sz) s"
    by (simp add: step_def render_synced)
  show ?thesis
    unfolding e using assms
    by (simp add: handle_def recorder_events_def handleNextQuestion_resume_def uploadAnswer_def
        currentQuestion_def synced_def Let_def)
qed

lemma click_while_uploading: "uploading s \<Longrightarrow> synced s \<Longrightarrow> step sd ua s ClickNext = s"
  by (simp add: step_def handle_def render_synced)

lemma forced_advance_twice_upload:
  assumes "mediaRecorderRef st = Some r" "r < length (recorders st)"
    "r_state (recorders st ! r) = RRecording" "recording st" "synced st"
    "\<not> uploading st" "\<not> analyzing st" "currentQuestionIndex st < length (questions sd)"
    and "w = [ClickNext, ClickNext, RecorderStop r sz] \<or> w = [ClickNext, RecorderStop r sz, ClickNext]"
  shows "currentQuestionIndex (foldl (step sd ua) st w) = currentQuestionIndex st
    \<and> analyses (foldl (step sd ua) st w) = analyses st
    \<and> (\<exists>u. uploads (foldl (step sd ua) st w) = uploads st @ [u] \<and> \<not> u_resolved u
          \<and> e_index (u_env u) = currentQuestionIndex st
          \<and> u_question u = q_id (questions sd ! currentQuestionIndex st))"
proof -
  let ?s1 = "step sd ua st ClickNext"
  have a: "r_state (recorders st ! r) = RRecording \<and> recording st
     \<or> r_state (recorders st ! r) = RStopping \<and> \<not> recording st"
    using assms(3,4) by simp
  note c1 = click_while_recording [OF assms(1,2) a assms(5,6,7), of sd ua]
  have good: "currentQuestionIndex m = currentQuestionIndex st
    \<and> analyses m = analyses st
    \<and> (\<exists>u. uploads m = uploads st @ [u] \<and> \<not> u_resolved u
          \<and> e_index (u_env u) = currentQuestionIndex st
          \<and> u_question u = q_id (questions sd ! currentQuestionIndex st))"
    if "currentQuestionIndex m = currentQuestionIndex st" "analyses m = analyses st"
      "uploads m \<noteq> []" "butlast (uploads m) = uploads st" "\<not> u_resolved (last (uploads m))"
      "e_index (u_env (last (uploads m))) = currentQuestionIndex st"
      "u_question (last (uploads m)) = q_id (questions sd ! currentQuestionIndex st)" for m
  proof -
    from that(3,4) have "uploads m = uploads st @ [last (uploads m)]"
      using append_butlast_last_id [of "uploads m"] by simp
    with that show ?thesis by blast
  qed
  from assms(9) show ?thesis
  proof
    assume w: "w = [ClickNext, ClickNext, RecorderStop r sz]"
    let ?s2 = "step sd ua ?s1 ClickNext"
    have b: "r_state (recorders ?s1 ! r) = RRecording \<and> recording ?s1
       \<or> r_state (recorders ?s1 ! r) = RStopping \<and> \<not> recording ?s1"
      using c1 by simp
    have c2: "mediaRecorderRef ?s2 = Some r
       \<and> r < length (recorders ?s2)
       \<and> r_state (recorders ?s2 ! r) = RStopping
       \<and> r_onstop (recorders ?s2 ! r) = ResolveWaitForStop (render_env ?s1)
       \<and> \<not> recording ?s2
       \<and> synced ?s2
       \<and> \<not> uploading ?s2 \<and> \<not> analyzing ?s2
       \<and> currentQuestionIndex ?s2 = currentQuestionIndex ?s1
       \<and> uploads ?s2 = uploads ?s1
       \<and> analyses ?s2 = analyses ?s1"
      by (rule click_while_recording) (use c1 b in simp_all)
    have e: "e_index (render_env ?s1) < length (questions sd)"
      using c1 assms(8) by (simp add: render_env_def)
    have c3: "uploading (step sd ua ?s2 (RecorderStop r sz))
       \<and> synced (step sd ua ?s2 (RecorderStop r sz))
       \<and> currentQuestionIndex (step sd ua ?s2 (RecorderStop r sz)) = currentQuestionIndex ?s2
       \<and> analyses (step sd ua ?s2 (RecorderStop r sz)) = analyses ?s2
       \<and> uploads (step sd ua ?s2 (RecorderStop r sz)) \<noteq> []
       \<and> butlast (uploads (step sd ua ?s2 (RecorderStop r sz))) = uploads ?s2
       \<and> \<not> u_resolved (last (uploads (step sd ua ?s2 (RecorderStop r sz))))
       \<and> u_env (last (uploads (step sd ua ?s2 (RecorderStop r sz)))) = render_env ?s1
       \<and> u_question (last (uploads (step sd ua ?s2 (RecorderStop r sz))))
            = q_id (questions sd ! e_index (render_env ?s1))"
      by (rule stop_resumes_forced_advance) (use c2 e in simp_all)
    have m: "foldl (step sd ua) st w = step sd ua ?s2 (RecorderStop r sz)" by (simp add: w)
    show ?thesis
      unfolding m by (rule good) (use c1 c2 c3 in \<open>simp_all add: render_env_def\<close>)
  next
    assume w: "w = [ClickNext, RecorderStop r sz, ClickNext]"
    let ?s2 = "step sd ua ?s1 (RecorderStop r sz)"
    have e: "e_index (render_env st) < length (questions sd)"
      using assms(8) by (simp add: render_env_def)
    have c2: "uploading ?s2
       \<and> synced ?s2
       \<and> currentQuestionIndex ?s2 = currentQuestionIndex ?s1
       \<and> analyses ?s2 = analyses ?s1
       \<and> uploads ?s2 \<noteq> []
       \<and> butlast (uploads ?s2) = uploads ?s1
       \<and> \<not> u_resolved (last (uploads ?s2))
       \<and> u_env (last (uploads ?s2)) = render_env st
       \<and> u_question (last (uploads ?s2)) = q_id (questions sd ! e_index (render_env st))"
      by (rule stop_resumes_forced_advance) (use c1 e in simp_all)
    have "step sd ua ?s2 ClickNext = ?s2"
      by (rule click_while_uploading) (use c2 in simp_all)
    then have m: "foldl (step sd ua) st w = ?s2" by (simp add: w)
    show ?thesis
      unfolding m by (rule good) (use c1 c2 in \<open>simp_all add: render_env_def\<close>)
  qed
qed

lemma upload_ok_step:
  assumes "uploads m = us @ [u]" "\<not> u_resolved u"
  shows "currentQuestionIndex (step sd ua m (UploadResponse (length us) Ok))
           = (if int (e_index (u_env u)) < int (length (questions sd)) - 1
              then currentQuestionIndex m + 1 else currentQuestionIndex m)
       \<and> uploads (step sd ua m (UploadResponse (length us) Ok)) = us @ [u\<lparr>u_resolved := True\<rparr>]
       \<and> analyses (step sd ua m (UploadResponse (length us) Ok))
           = (if int (e_index (u_env u)) < int (length (questions sd)) - 1
              then analyses m else analyses m @ [False])"
  using assms
  by (simp add: step_def render_frame handle_def uploadAnswer_resume_def analyzeInterview_def
      stopCamera_def Let_def)

text \<open>
  C6. If forced-advance is invoked twice in quick succession before the first upload
  resolves, the current question index advances exactly once, not twice, and no duplicate
  upload results. In every state a run reaches in which a recorder is recording and the
  button is enabled, take two clicks before the recorder's stop event, or one before and one
  after it (where the button is disabled): in both orders the index has not moved when the
  stop event has been handled, exactly one request was sent, for the current question, and
  it is the only one in flight; after its successful response the index has advanced by one
  (or, at the last question, stayed, with one analysis call issued), and still exactly one
  request was sent.
\<close>

theorem forced_advance_twice_advances_once:
  assumes "st = run sd ua evs"
    and "r < length (recorders st)" "r_state (recorders st ! r) = RRecording"
    and "\<not> uploading st" "\<not> analyzing st"
    and "currentQuestionIndex st < length (questions sd)"
    and "w = [ClickNext, ClickNext, RecorderStop r sz] \<or> w = [ClickNext, RecorderStop r sz, ClickNext]"
  shows "currentQuestionIndex (foldl (step sd ua) st w) = currentQuestionIndex st
       \<and> length (uploads (foldl (step sd ua) st w)) = length (uploads st) + 1
       \<and> pending (foldl (step sd ua) st w) = 1
       \<and> u_question (last (uploads (foldl (step sd ua) st w)))
            = q_id (questions sd ! currentQuestionIndex st)
       \<and> currentQuestionIndex (foldl (step sd ua) st (w @ [UploadResponse (length (uploads st)) Ok]))
            = (if currentQuestionIndex st + 1 < length (questions sd)
               then currentQuestionIndex st + 1 else currentQuestionIndex st)
       \<and> length (uploads (foldl (step sd ua) st (w @ [UploadResponse (length (uploads st)) Ok])))
            = length (uploads st) + 1
       \<and> pending (foldl (step sd ua) st (w @ [UploadResponse (length (uploads st)) Ok])) = 0
       \<and> analyses (foldl (step sd ua) st (w @ [UploadResponse (length (uploads st)) Ok]))
            = (if currentQuestionIndex st + 1 < length (questions sd) then [] else [False])"
proof -
  let ?m = "foldl (step sd ua) st w"
  from assms(1) have i: "inv0 st" "synced st" using inv_run [of sd ua evs] by simp_all
  note f = recording_facts [OF i(1) assms(2,3)]
  from forced_advance_twice_upload [OF f(1) assms(2,3) f(2) i(2) assms(4,5,6,7), of ua]
  obtain u where m: "currentQuestionIndex ?m = currentQuestionIndex st" "analyses ?m = analyses st"
    and u: "uploads ?m = uploads st @ [u]" "\<not> u_resolved u"
      "e_index (u_env u) = currentQuestionIndex st"
      "u_question u = q_id (questions sd ! currentQuestionIndex st)"
    by blast
  from f(3) have p0: "filter (\<lambda>u. \<not> u_resolved u) (uploads st) = []" by (simp add: pending_def)
  note k = upload_ok_step [OF u(1,2), of sd ua]
  have c: "(int (currentQuestionIndex st) < int (length (questions sd)) - 1)
             = (currentQuestionIndex st + 1 < length (questions sd))" by auto
  show ?thesis
    using m u k p0 f(4) by (simp add: pending_def c)
qed

text \<open>The first of two questions is being recorded; both orders of the two clicks.\<close>

theorem forced_advance_twice_advances_once_witness:
  "(let st = run two_questions webm_agent [CameraGranted]
    in 0 < length (recorders st) \<and> r_state (recorders st ! 0) = RRecording
       \<and> \<not> uploading st \<and> \<not> analyzing st
       \<and> currentQuestionIndex st < length (questions two_questions)
       \<and> currentQuestionIndex st = 0 \<and> uploads st = []
       \<and> currentQuestionIndex (foldl (step two_questions webm_agent) st
            [ClickNext, ClickNext, RecorderStop 0 5, UploadResponse 0 Ok]) = 1
       \<and> length (uploads (foldl (step two_questions webm_agent) st
            [ClickNext, ClickNext, RecorderStop 0 5, UploadResponse 0 Ok])) = 1
       \<and> currentQuestionIndex (foldl (step two_questions webm_agent) st
            [ClickNext, RecorderStop 0 5, ClickNext, UploadResponse 0 Ok]) = 1
       \<and> length (uploads (foldl (step two_questions webm_agent) st
            [ClickNext, RecorderStop 0 5, ClickNext, UploadResponse 0 Ok])) = 1)"
proof -
  define st where "st = run two_questions webm_agent [CameraGranted]"
  have h: "0 < length (recorders st)" "r_state (recorders st ! 0) = RRecording"
    "\<not> uploading st" "\<not> analyzing st" "currentQuestionIndex st < length (questions two_questions)"
    and z: "currentQuestionIndex st = 0" "uploads st = []"
    unfolding st_def by (simp_all add: run_def handler_defs example_defs)
  have a: "[ClickNext, ClickNext, RecorderStop 0 5] = [ClickNext, ClickNext, RecorderStop 0 5]
     \<or> [ClickNext, ClickNext, RecorderStop 0 5] = [ClickNext, RecorderStop 0 5, ClickNext]"
    by simp
  have b: "[ClickNext, RecorderStop 0 5, ClickNext] = [ClickNext, ClickNext, RecorderStop 0 5]
     \<or> [ClickNext, RecorderStop 0 5, ClickNext] = [ClickNext, RecorderStop 0 5, ClickNext]"
    by simp
  have q: "length (questions two_questions) = 2" by (simp add: questions_def two_questions_def)
  show ?thesis
    using forced_advance_twice_advances_once [OF st_def h a]
          forced_advance_twice_advances_once [OF st_def h b] h z q
    unfolding Let_def st_def [symmetric] by simp
qed

lemma run_append: "run sd ua (evs @ evs') = foldl (step sd ua) (run sd ua evs) evs'"
  by (simp add: run_def)

lemma tick_never_stops:
  "uploads (step sd ua (run sd ua evs) (Tick t)) = uploads (run sd ua evs)
   \<and> recorders (step sd ua (run sd ua evs) (Tick t)) = recorders (run sd ua evs)
   \<and> timers (step sd ua (run sd ua evs) (Tick t)) = timers (run sd ua evs)"
proof -
  let ?s = "run sd ua evs"
  have i: "inv0 ?s" "synced ?s" using inv_run [of sd ua evs] by simp_all
  have "handle sd (Tick t) ?s = ?s \<or>
        handle sd (Tick t) ?s = ?s\<lparr>timeLeft := (if timeLeft ?s \<le> 1 then 0 else timeLeft ?s - 1)\<rparr>"
    using handle_Tick [OF i(1), of sd t] by simp
  then show ?thesis
    using i(2) by (elim disjE) (simp_all add: step_def render_def synced_def)
qed

text \<open>
  C1, the code at a failing input. For every full session run over a non-empty question
  sequence, in which each question's recording is ended either by timer expiry or by the
  user's forced advance, exactly one upload submission is sent per question id. Here a
  session of one question with \<^verbatim>\<open>estimated_seconds = 1\<close>: the first tick finds
  \<^verbatim>\<open>prev <= 1\<close> and calls \<^verbatim>\<open>stopRecording\<close>, whose \<^verbatim>\<open>recording\<close> is the false of
  the render that started the recording (line 60 lets only such a render arm a timer), so
  lines 125-132 are skipped. After any number of ticks the state is the one at the start of
  the recording with \<^verbatim>\<open>timeLeft = 0\<close>: the recorder records, nothing was sent.
\<close>

theorem timer_expiry_uploads_nothing:
  "timeLeft (run one_question webm_agent [CameraGranted]) = 1
   \<and> uploads (run one_question webm_agent [CameraGranted]) = []
   \<and> map r_state (recorders (run one_question webm_agent [CameraGranted])) = [RRecording]
   \<and> run one_question webm_agent (CameraGranted # replicate (Suc k) (Tick 0))
       = (run one_question webm_agent [CameraGranted])\<lparr>timeLeft := 0\<rparr>"
proof -
  define s where "s = run one_question webm_agent [CameraGranted]"
  have s: "s = \<lparr>currentQuestionIndex = 0, recording = True, timeLeft = 1,
    uploading = False, analyzing = False, cameraReady = True,
    mediaRecorderRef = Some 0, audioChunksRef = [], streamRef = True,
    tracks_stopped = False, timerRef = Some 0, uploadLockedRef = False,
    recorders = [\<lparr>r_state = RRecording,
          r_onstop = HandleRecordingStop \<lparr>e_index = 0, e_recording = False\<rparr>,
          r_mimeType = ''audio/webm''\<rparr>],
    timers = [\<lparr>t_env = \<lparr>e_index = 0, e_recording = False\<rparr>, t_cleared = False\<rparr>],
    uploads = [], analyses = [], completions = 0, alerts = [],
    camera_pending = False, effect_deps = (0, True)\<rparr>"
    unfolding s_def by (simp add: run_def handler_defs example_defs)
  have t1: "step one_question webm_agent s (Tick 0) = s\<lparr>timeLeft := 0\<rparr>"
    by (simp add: s handler_defs)
  have t2: "step one_question webm_agent (s\<lparr>timeLeft := 0\<rparr>) (Tick 0) = s\<lparr>timeLeft := 0\<rparr>"
    by (simp add: s handler_defs)
  have "foldl (step one_question webm_agent) (s\<lparr>timeLeft := 0\<rparr>) (replicate k (Tick 0))
          = s\<lparr>timeLeft := 0\<rparr>"
    by (induction k) (simp_all only: replicate.simps foldl.simps t2)
  then have "foldl (step one_question webm_agent) s (replicate (Suc k) (Tick 0)) = s\<lparr>timeLeft := 0\<rparr>"
    by (simp only: replicate.simps foldl.simps t1)
  then have "run one_question webm_agent ([CameraGranted] @ replicate (Suc k) (Tick 0))
      = s\<lparr>timeLeft := 0\<rparr>"
    unfolding run_append s_def by simp
  then show ?thesis
    unfolding s_def [symmetric] by (simp add: s)
qed

text \<open>
  C3, the code on the path the claim is about. When a recording is stopped by timer expiry
  rather than by an explicit forced-advance, the upload lock is not set before that stop,
  and consequently the natural stop-completion handler performs the upload for that
  recording. The code: take the tick that finds \<^verbatim>\<open>prev <= 1\<close> while the recorder in
  \<^verbatim>\<open>mediaRecorderRef\<close> records, with \<^verbatim>\<open>handleRecordingStop\<close> as its \<^verbatim>\<open>onstop\<close>.
  If the \<^verbatim>\<open>stopRecording\<close> of the tick sees \<^verbatim>\<open>recording\<close> true, line 125 sets the lock
  before line 126 stops the recorder, and the handler, run at the stop event, clears the
  lock and sends nothing. If it sees \<^verbatim>\<open>recording\<close> false, the tick only sets
  \<^verbatim>\<open>timeLeft\<close> to 0 and the recorder is not stopped; and every timer of every run is of
  this second kind.
\<close>

theorem timer_stop_sets_lock:
  assumes "mediaRecorderRef st = Some r" "r < length (recorders st)"
    and "r_state (recorders st ! r) = RRecording"
    and "r_onstop (recorders st ! r) = HandleRecordingStop e'"
    and "timeLeft st \<le> 1"
  shows "(e_recording e \<longrightarrow>
            uploadLockedRef (tick e st)
          \<and> r_state (recorders (tick e st) ! r) = RStopping
          \<and> uploads (recorder_events sd r sz (tick e st)) = uploads st
          \<and> \<not> uploadLockedRef (recorder_events sd r sz (tick e st)))
       \<and> (\<not> e_recording e \<longrightarrow> tick e st = st\<lparr>timeLeft := 0\<rparr>)
       \<and> (\<forall>t. t < length (timers (run sd ua evs)) \<longrightarrow>
              \<not> e_recording (t_env (timers (run sd ua evs) ! t)))"
proof -
  have a: "uploadLockedRef (tick e st)
          \<and> r_state (recorders (tick e st) ! r) = RStopping
          \<and> uploads (recorder_events sd r sz (tick e st)) = uploads st
          \<and> \<not> uploadLockedRef (recorder_events sd r sz (tick e st))" if "e_recording e"
    using assms that
    by (auto simp: tick_def stopRecording_def recorder_stop_def clearInterval_def
        recorder_events_def handleRecordingStop_def Let_def split: option.splits)
  have b: "tick e st = st\<lparr>timeLeft := 0\<rparr>" if "\<not> e_recording e"
    using assms(5) that by (simp add: tick_stale)
  have "inv0 (run sd ua evs)" using inv_run [of sd ua evs] by simp
  then have c: "\<forall>t. t < length (timers (run sd ua evs)) \<longrightarrow>
              \<not> e_recording (t_env (timers (run sd ua evs) ! t))"
    by (simp add: inv0_def list_all_length)
  from a b c show ?thesis by blast
qed

text \<open>The state after the camera is granted, one question of one second.\<close>

theorem timer_stop_sets_lock_witness:
  "(let st = run one_question webm_agent [CameraGranted]
    in mediaRecorderRef st = Some 0 \<and> 0 < length (recorders st)
     \<and> r_state (recorders st ! 0) = RRecording
     \<and> r_onstop (recorders st ! 0) = HandleRecordingStop \<lparr>e_index = 0, e_recording = False\<rparr>
     \<and> timeLeft st \<le> 1
     \<and> t_env (timers st ! 0) = \<lparr>e_index = 0, e_recording = False\<rparr>
     \<and> tick (t_env (timers st ! 0)) st = st\<lparr>timeLeft := 0\<rparr>
     \<and> uploadLockedRef (tick \<lparr>e_index = 0, e_recording = True\<rparr> st)
     \<and> uploads (recorder_events one_question 0 5 (tick \<lparr>e_index = 0, e_recording = True\<rparr> st)) = [])"
proof -
  define st where "st = run one_question webm_agent [CameraGranted]"
  have h: "mediaRecorderRef st = Some 0" "0 < length (recorders st)"
     "r_state (recorders st ! 0) = RRecording"
     "r_onstop (recorders st ! 0) = HandleRecordingStop \<lparr>e_index = 0, e_recording = False\<rparr>"
     "timeLeft st \<le> 1"
    and t: "t_env (timers st ! 0) = \<lparr>e_index = 0, e_recording = False\<rparr>"
    and u: "uploads st = []"
    unfolding st_def by (simp_all add: run_def handler_defs example_defs)
  show ?thesis
    using timer_stop_sets_lock [OF h, of "\<lparr>e_index = 0, e_recording = True\<rparr>" one_question 5 webm_agent "[]"]
          timer_stop_sets_lock [OF h, of "\<lparr>e_index = 0, e_recording = False\<rparr>" one_question 5 webm_agent "[]"]
          h t u
    unfolding Let_def st_def [symmetric] by simp
qed

lemma handleNextQuestion_keeps_timers:
  "timers (handleNextQuestion e st) = timers st \<and> timerRef (handleNextQuestion e st) = timerRef st"
  by (simp add: handleNextQuestion_def recorder_stop_def Let_def split: option.splits)

text \<open>
  C4, the code at a failing input. Whenever a recording stops, for any reason (timer expiry
  or forced advance), the countdown timer is disarmed, so a tick from a previous question's
  timer never fires against a subsequent question's recording. Here two questions; the
  first is ended by a forced advance and its upload succeeds. The second question is then
  being recorded with its own timer and a countdown of 90, the timer of the first question
  was never cleared, and its next tick takes a second off the second question's countdown.
\<close>

theorem forced_advance_leaves_timer_armed:
  "currentQuestionIndex (run two_questions webm_agent
      [CameraGranted, ClickNext, RecorderStop 0 5, UploadResponse 0 Ok]) = 1
   \<and> map r_state (recorders (run two_questions webm_agent
      [CameraGranted, ClickNext, RecorderStop 0 5, UploadResponse 0 Ok])) = [RInactive, RRecording]
   \<and> map t_cleared (timers (run two_questions webm_agent
      [CameraGranted, ClickNext, RecorderStop 0 5, UploadResponse 0 Ok])) = [False, False]
   \<and> map (e_index \<circ> t_env) (timers (run two_questions webm_agent
      [CameraGranted, ClickNext, RecorderStop 0 5, UploadResponse 0 Ok])) = [0, 1]
   \<and> timeLeft (run two_questions webm_agent
      [CameraGranted, ClickNext, RecorderStop 0 5, UploadResponse 0 Ok]) = 90
   \<and> timeLeft (run two_questions webm_agent
      [CameraGranted, ClickNext, RecorderStop 0 5, UploadResponse 0 Ok, Tick 0]) = 89
   \<and> timeLeft (run two_questions webm_agent
      [CameraGranted, ClickNext, RecorderStop 0 5, UploadResponse 0 Ok, Tick 0, Tick 1]) = 88"
  by (simp add: run_def handler_defs example_defs)

lemma stuck_after:
  assumes "s = run sd ua evs" "live s = 0" "pending s = 0" "analyses s = []" "\<not> camera_pending s"
  shows "uploads (run sd ua (evs @ evs')) = uploads s"
proof -
  from assms(1) have i: "inv0 s" "synced s" using inv_run [of sd ua evs] by simp_all
  from assms(4) have a: "list_all (\<lambda>b. b) (analyses s)" by simp
  show ?thesis
    using quiescent_foldl [OF i assms(2,3) a assms(5), of sd ua evs'] assms(1)
    by (simp add: run_append)
qed

text \<open>
  C5, the code at a failing input. For every question whose recording finishes with zero
  accumulated chunks, a submission (an empty-payload blob) is still sent for that question,
  regardless of which trigger ended the recording. Here the recording of the only question
  ends by itself with an empty blob: line 95 keeps no chunk, line 177 returns, and whatever
  events follow, no request is ever sent.
\<close>

theorem natural_stop_without_chunks_sends_nothing:
  "map r_state (recorders (run one_question webm_agent [CameraGranted, RecorderStop 0 0])) = [RInactive]
   \<and> audioChunksRef (run one_question webm_agent [CameraGranted, RecorderStop 0 0]) = []
   \<and> uploads (run one_question webm_agent ([CameraGranted, RecorderStop 0 0] @ evs)) = []"
proof -
  define s where "s = run one_question webm_agent [CameraGranted, RecorderStop 0 0]"
  have f: "live s = 0" "pending s = 0" "analyses s = []" "\<not> camera_pending s"
    and u: "uploads s = []" "map r_state (recorders s) = [RInactive]" "audioChunksRef s = []"
    unfolding s_def
    by (simp_all add: run_def handler_defs example_defs live_def pending_def inactive_def)
  show ?thesis
    using stuck_after [OF s_def f, of evs] u unfolding s_def [symmetric] by simp
qed

text \<open>
  C2, the code at a failing input. For any single recording for which both a forced-advance
  and the recorder's natural stop-completion event occur, in either order, exactly one
  upload call results. With the forced advance first, one request is sent. With the stop
  event first and no chunk, \<^verbatim>\<open>handleRecordingStop\<close> sends nothing (line 177), the forced
  advance then waits for a stop event that the inactive recorder never fires, and whatever
  events follow, no request is ever sent.
\<close>

theorem natural_stop_then_forced_advance_sends_nothing:
  "length (uploads (run one_question webm_agent [CameraGranted, ClickNext, RecorderStop 0 0])) = 1
   \<and> map u_resolved (uploads (run one_question webm_agent
        [CameraGranted, ClickNext, RecorderStop 0 0])) = [False]
   \<and> uploads (run one_question webm_agent [CameraGranted, RecorderStop 0 0]) = []
   \<and> uploads (run one_question webm_agent ([CameraGranted, RecorderStop 0 0, ClickNext] @ evs)) = []"
proof -
  define s where "s = run one_question webm_agent [CameraGranted, RecorderStop 0 0, ClickNext]"
  have f: "live s = 0" "pending s = 0" "analyses s = []" "\<not> camera_pending s"
    and u: "uploads s = []"
    unfolding s_def
    by (simp_all add: run_def handler_defs example_defs live_def pending_def inactive_def)
  have a: "length (uploads (run one_question webm_agent [CameraGranted, ClickNext, RecorderStop 0 0])) = 1"
    "map u_resolved (uploads (run one_question webm_agent
        [CameraGranted, ClickNext, RecorderStop 0 0])) = [False]"
    "uploads (run one_question webm_agent [CameraGranted, RecorderStop 0 0]) = []"
    by (simp_all add: run_def handler_defs example_defs)
  show ?thesis
    using stuck_after [OF s_def f, of evs] u a unfolding s_def [symmetric] by simp
qed

end
